theory Spec2Isabelle
  imports Main
begin

section \<open>JavaScript values, errors and ordinary objects\<close>

text \<open>
  The hook \<open>useRefFields\<close> keeps one plain object, \<open>fieldsRef.current\<close>, whose property
  names are the field names and whose values are \<open>null\<close> or a DOM element. Its accessors
  read the \<open>value\<close> property of those elements. The values that occur are: \<open>undefined\<close>
  (a property that is missing), \<open>null\<close>, a string, and a DOM element, identified by a number.
\<close>

datatype jsval = Undefined | Null | is_Str: Str string | is_Elem: Elem nat

text \<open>
  \<open>Error msg\<close> is what \<open>throw new Error(msg)\<close> in \<open>assertIsDefined\<close> raises;
  \<open>TypeError\<close> is what the engine raises when a property of \<open>null\<close> or
  \<open>undefined\<close> is read.
\<close>

datatype error = Error string | TypeError

text \<open>
  An ordinary object, as the list of its own properties in the order of their creation.
  Reading a property that is missing gives \<open>undefined\<close>. Writing a property that exists keeps
  its place; writing a new one creates it last. The properties an object inherits from
  \<open>Object.prototype\<close> are left out: the hook reads \<open>fieldsRef.current\<close> under the names
  of \<open>fields\<close> only, which are own properties of it in every state the hook can reach.
\<close>

type_synonym obj = "(string \<times> jsval) list"

definition obj_get :: "obj \<Rightarrow> string \<Rightarrow> jsval" where
  "obj_get obj key = (case map_of obj key of None \<Rightarrow> Undefined | Some v \<Rightarrow> v)"

fun obj_put :: "obj \<Rightarrow> string \<Rightarrow> jsval \<Rightarrow> obj" where
  "obj_put [] key v = [(key, v)]"
| "obj_put ((k, w) # obj) key v =
     (if k = key then (k, v) # obj else (k, w) # obj_put obj key v)"

text \<open>
  The own property keys of an ordinary object are enumerated with the array indices first,
  in ascending numeric order, and then the other strings in the order of their creation.
  An array index is the canonical decimal form of an integer below \<open>2^32 - 1\<close>.
\<close>

definition is_digit :: "char \<Rightarrow> bool" where
  "is_digit c = (c \<in> set ''0123456789'')"

definition digit_value :: "char \<Rightarrow> int" where
  "digit_value c = of_char c - 48"

definition dec_value :: "string \<Rightarrow> int" where
  "dec_value s = foldl (\<lambda>n c. 10 * n + digit_value c) 0 s"

definition is_array_index :: "string \<Rightarrow> bool" where
  "is_array_index s =
     (s \<noteq> [] \<and> list_all is_digit s \<and> (if hd s = CHR ''0'' then s = ''0'' else True)
      \<and> dec_value s < 4294967295)"

definition ownKeys :: "obj \<Rightarrow> string list" where
  "ownKeys obj =
     (let ks = map fst obj
      in sort_key dec_value (filter is_array_index ks) @ filter (\<lambda>k. \<not> is_array_index k) ks)"

text \<open>
  The spread \<open>{...obj}\<close> copies the own properties of \<open>obj\<close> into a new object, in the
  order in which \<open>obj\<close> enumerates them.
\<close>

definition spread :: "obj \<Rightarrow> obj" where
  "spread obj = map (\<lambda>k. (k, obj_get obj k)) (ownKeys obj)"

text \<open>What \<open>Array.prototype.every\<close> makes of the value its callback returns.\<close>

fun truthy :: "jsval \<Rightarrow> bool" where
  "truthy Undefined = False"
| "truthy Null = False"
| "truthy (Str s) = (s \<noteq> [])"
| "truthy (Elem a) = True"

section \<open>The store\<close>

text \<open>
  Objects live in a store, at addresses handed out in increasing order, since the hook
  shares one object between \<open>initialState\<close> and \<open>fieldsRef.current\<close> and writes to it in
  place. \<open>elem_value\<close> is the DOM: the current text of every element, which the user changes
  by typing.
\<close>

record state =
  heap :: "nat \<Rightarrow> obj"
  fresh :: nat
  elem_value :: "nat \<Rightarrow> string"

definition alloc :: "obj \<Rightarrow> state \<Rightarrow> nat \<times> state" where
  "alloc obj s = (fresh s, s\<lparr>heap := (heap s)(fresh s := obj), fresh := Suc (fresh s)\<rparr>)"

definition heap_put :: "nat \<Rightarrow> string \<Rightarrow> jsval \<Rightarrow> state \<Rightarrow> state" where
  "heap_put a key v s = s\<lparr>heap := (heap s)(a := obj_put (heap s a) key v)\<rparr>"

text \<open>
  \<open>xs.reduce(f, init)\<close> and \<open>xs.every(f)\<close>, for callbacks that may write to the store and
  may throw. \<open>every\<close> stops at the first element whose callback returns a falsy value.
\<close>

fun reduce ::
  "('b \<Rightarrow> 'a \<Rightarrow> state \<Rightarrow> (error + 'b) \<times> state) \<Rightarrow> 'a list \<Rightarrow> 'b \<Rightarrow> state
     \<Rightarrow> (error + 'b) \<times> state" where
  "reduce f [] acc s = (Inr acc, s)"
| "reduce f (x # xs) acc s =
     (case f acc x s of
        (Inl e, s') \<Rightarrow> (Inl e, s')
      | (Inr acc', s') \<Rightarrow> reduce f xs acc' s')"

fun every ::
  "('a \<Rightarrow> state \<Rightarrow> (error + jsval) \<times> state) \<Rightarrow> 'a list \<Rightarrow> state
     \<Rightarrow> (error + bool) \<times> state" where
  "every f [] s = (Inr True, s)"
| "every f (x # xs) s =
     (case f x s of
        (Inl e, s') \<Rightarrow> (Inl e, s')
      | (Inr v, s') \<Rightarrow> if truthy v then every f xs s' else (Inr False, s'))"

section \<open>The hook\<close>

text \<open>
  The message of \<open>assertIsDefined\<close>; the letter e with an acute accent is the character
  \<open>0xE9\<close>, the apostrophe \<open>0x27\<close>.
\<close>

definition unassigned_message :: "string \<Rightarrow> string" where
  "unassigned_message key =
     ''La r'' @ [CHR 0xE9] @ ''f'' @ [CHR 0xE9] @ ''rence '' @ key
       @ '' n'' @ [CHR 0x27] @ ''est pas affect'' @ [CHR 0xE9] @ ''e !''"

definition assertIsDefined :: "jsval \<Rightarrow> string \<Rightarrow> error + unit" where
  "assertIsDefined v key =
     (if v = Undefined \<or> v = Null then Inl (Error (unassigned_message key)) else Inr ())"

text \<open>
  The property read \<open>x.value\<close>: a \<open>TypeError\<close> on \<open>null\<close> and \<open>undefined\<close>, the current
  text of an element, and \<open>undefined\<close> (here \<open>None\<close>) on a string, which has no such
  property. \<open>x?.value\<close> is \<open>undefined\<close> on \<open>null\<close> and \<open>undefined\<close> instead.
\<close>

fun read_value :: "(nat \<Rightarrow> string) \<Rightarrow> jsval \<Rightarrow> error + string option" where
  "read_value d Undefined = Inl TypeError"
| "read_value d Null = Inl TypeError"
| "read_value d (Str s) = Inr None"
| "read_value d (Elem a) = Inr (Some (d a))"

definition read_value_opt :: "(nat \<Rightarrow> string) \<Rightarrow> jsval \<Rightarrow> error + string option" where
  "read_value_opt d v = (if v = Undefined \<or> v = Null then Inr None else read_value d v)"

definition of_opt :: "string option \<Rightarrow> jsval" where
  "of_opt v = (case v of None \<Rightarrow> Undefined | Some s \<Rightarrow> Str s)"

text \<open>\<open>FormData.append\<close> converts the value it is given to a string.\<close>

definition usv_string :: "string option \<Rightarrow> string" where
  "usv_string v = (case v of None \<Rightarrow> ''undefined'' | Some s \<Rightarrow> s)"

text \<open>
  What the closures \<open>setRef\<close>, \<open>getRef\<close>, \<open>getAllRef\<close> and \<open>getFormData\<close> of one call of
  the hook capture: the array \<open>fields\<close> (here \<open>fields_arr\<close>), the address of the object
  \<open>fieldsRef.current\<close> (the hook never assigns \<open>fieldsRef.current\<close> again), and the
  address of the object \<open>initialState\<close> built by that call.
\<close>

record closure =
  fields_arr :: "string list"
  fieldsRef :: nat
  initialState :: nat

text \<open>
  The object literal \<open>{ ...obj, [key]: expr }\<close>: a new object receives the properties
  of \<open>obj\<close>, then \<open>expr\<close> is evaluated and stored under \<open>key\<close>.
\<close>

definition object_literal ::
  "nat \<Rightarrow> string \<Rightarrow> (state \<Rightarrow> error + jsval) \<Rightarrow> state \<Rightarrow> (error + nat) \<times> state" where
  "object_literal obj key expr s =
     (case alloc (spread (heap s obj)) s of
        (a, s1) \<Rightarrow>
          (case expr s1 of
             Inl e \<Rightarrow> (Inl e, s1)
           | Inr v \<Rightarrow> (Inr a, heap_put a key v s1)))"

text \<open>\<open>fields.reduce((obj, name) => ({ ...obj, [name]: null }), {})\<close>\<close>

definition new_initialState :: "string list \<Rightarrow> state \<Rightarrow> (error + nat) \<times> state" where
  "new_initialState fs s =
     (case alloc [] s of
        (e, s0) \<Rightarrow> reduce (\<lambda>obj name. object_literal obj name (\<lambda>s1. Inr Null)) fs e s0)"

text \<open>
  The first call of the hook: \<open>useRef(initialState)\<close> makes \<open>fieldsRef.current\<close> the very
  object \<open>initialState\<close>. A later call (a new render) builds a new \<open>initialState\<close>, and
  \<open>useRef\<close> returns the reference of the first call.
\<close>

definition useRefFields :: "string list \<Rightarrow> state \<Rightarrow> (error + closure) \<times> state" where
  "useRefFields fs s =
     (case new_initialState fs s of
        (Inl e, s') \<Rightarrow> (Inl e, s')
      | (Inr a, s') \<Rightarrow> (Inr \<lparr>fields_arr = fs, fieldsRef = a, initialState = a\<rparr>, s'))"

definition useRefFields_again :: "closure \<Rightarrow> state \<Rightarrow> (error + closure) \<times> state" where
  "useRefFields_again c s =
     (case new_initialState (fields_arr c) s of
        (Inl e, s') \<Rightarrow> (Inl e, s')
      | (Inr a, s') \<Rightarrow>
          (Inr \<lparr>fields_arr = fields_arr c, fieldsRef = fieldsRef c, initialState = a\<rparr>, s'))"

text \<open>
  \<open>setRef(key)(ref)\<close>; React calls the callback with the element when it mounts
  (\<open>Some a\<close>) and with \<open>null\<close> when it unmounts (\<open>None\<close>).
\<close>

definition setRef :: "closure \<Rightarrow> string \<Rightarrow> nat option \<Rightarrow> state \<Rightarrow> state" where
  "setRef c key ref s =
     (if key \<in> set (fields_arr c)
      then heap_put (fieldsRef c) key (case ref of None \<Rightarrow> Null | Some a \<Rightarrow> Elem a) s
      else s)"

definition getRef :: "closure \<Rightarrow> string \<Rightarrow> state \<Rightarrow> (error + string option) \<times> state" where
  "getRef c key s =
     (case assertIsDefined (obj_get (heap s (fieldsRef c)) key) key of
        Inl e \<Rightarrow> (Inl e, s)
      | Inr u \<Rightarrow> (read_value (elem_value s) (obj_get (heap s (fieldsRef c)) key), s))"

text \<open>The result of \<open>getAllRef\<close> is the address of the object it has built.\<close>

definition getAllRef :: "closure \<Rightarrow> state \<Rightarrow> (error + nat) \<times> state" where
  "getAllRef c s =
     reduce (\<lambda>obj key.
               object_literal obj key
                 (\<lambda>s1. case read_value_opt (elem_value s1) (obj_get (heap s1 (fieldsRef c)) key) of
                         Inl e \<Rightarrow> Inl e
                       | Inr v \<Rightarrow> Inr (of_opt v)))
            (fields_arr c) (initialState c) s"

text \<open>
  A \<open>FormData\<close> is the list of its entries. The one \<open>getFormData\<close> fills is new and its own,
  so it is passed along as a value. The callback of \<open>every\<close> returns what
  \<open>assertIsDefined\<close> returns, which is \<open>undefined\<close>.
\<close>

definition getFormData ::
  "closure \<Rightarrow> state \<Rightarrow> (error + (string \<times> string) list) \<times> state" where
  "getFormData c s =
     (case every (\<lambda>key s1.
                    case assertIsDefined (obj_get (heap s1 (fieldsRef c)) key) key of
                      Inl e \<Rightarrow> (Inl e, s1)
                    | Inr u \<Rightarrow> (Inr Undefined, s1))
                 (fields_arr c) s of
        (Inl e, s') \<Rightarrow> (Inl e, s')
      | (Inr b, s') \<Rightarrow>
          reduce (\<lambda>form key s1.
                    case read_value (elem_value s1) (obj_get (heap s1 (fieldsRef c)) key) of
                      Inl e \<Rightarrow> (Inl e, s1)
                    | Inr v \<Rightarrow> (Inr (form @ [(key, usv_string v)]), s1))
                 (fields_arr c) [] s')"

section \<open>Specification vocabulary\<close>

text \<open>What the object literal \<open>{ ...obj, [key]: v }\<close> holds, as a value.\<close>

definition literal :: "obj \<Rightarrow> string \<Rightarrow> jsval \<Rightarrow> obj" where
  "literal obj key v = obj_put (spread obj) key v"

text \<open>
  \<open>frame s t\<close>: going from \<open>s\<close> to \<open>t\<close>, objects were only added; every object of
  \<open>s\<close> and the text of every element are as they were.
\<close>

definition frame :: "state \<Rightarrow> state \<Rightarrow> bool" where
  "frame s t = (fresh s \<le> fresh t \<and> elem_value t = elem_value s
                 \<and> (\<forall>p. p < fresh s \<longrightarrow> heap t p = heap s p))"

text \<open>
  What \<open>getAllRef\<close> shows for a slot: the current text of the element stored there, and
  \<open>undefined\<close> when no element is stored.
\<close>

definition current_value :: "(nat \<Rightarrow> string) \<Rightarrow> jsval \<Rightarrow> jsval" where
  "current_value d v = (case v of Elem a \<Rightarrow> Str (d a) | _ \<Rightarrow> Undefined)"

text \<open>
  The invariant of the hook: both objects exist, their keys are the field names (in the order
  of \<open>fields\<close> when the names are distinct and none is an array index), and a slot of
  \<open>fieldsRef.current\<close> never holds a string.
\<close>

definition registry_ok :: "closure \<Rightarrow> state \<Rightarrow> bool" where
  "registry_ok c s =
     (fieldsRef c < fresh s \<and> initialState c < fresh s
      \<and> set (map fst (heap s (fieldsRef c))) = set (fields_arr c)
      \<and> set (map fst (heap s (initialState c))) = set (fields_arr c)
      \<and> (distinct (fields_arr c) \<and> (\<forall>k \<in> set (fields_arr c). \<not> is_array_index k) \<longrightarrow>
             map fst (heap s (fieldsRef c)) = fields_arr c
             \<and> map fst (heap s (initialState c)) = fields_arr c)
      \<and> (\<forall>k. \<not> is_Str (obj_get (heap s (fieldsRef c)) k)))"

text \<open>
  The states a form can bring the hook to: the first render, a later render, a ref callback
  called for any key with an element or with \<open>null\<close>, the user typing into a field, and
  the three accessors.
\<close>

inductive reachable :: "closure \<Rightarrow> state \<Rightarrow> bool" where
  first_render: "useRefFields fs s0 = (Inr c, s) \<Longrightarrow> reachable c s"
| next_render: "reachable c s \<Longrightarrow> useRefFields_again c s = (Inr c', s') \<Longrightarrow> reachable c' s'"
| ref_callback: "reachable c s \<Longrightarrow> reachable c (setRef c key ref s)"
| user_input: "reachable c s \<Longrightarrow> reachable c (s\<lparr>elem_value := d\<rparr>)"
| read_one: "reachable c s \<Longrightarrow> reachable c (snd (getRef c key s))"
| read_all: "reachable c s \<Longrightarrow> reachable c (snd (getAllRef c s))"
| read_form: "reachable c s \<Longrightarrow> reachable c (snd (getFormData c s))"

text \<open>
  What a caller sees of the object \<open>getAllRef\<close> returns: its keys, as \<open>Object.keys\<close>
  lists them, and the value under one key.
\<close>

definition result_keys :: "(error + nat) \<times> state \<Rightarrow> error + string list" where
  "result_keys r = (case r of (Inl e, s) \<Rightarrow> Inl e | (Inr a, s) \<Rightarrow> Inr (ownKeys (heap s a)))"

definition result_get :: "(error + nat) \<times> state \<Rightarrow> string \<Rightarrow> error + jsval" where
  "result_get r k = (case r of (Inl e, s) \<Rightarrow> Inl e | (Inr a, s) \<Rightarrow> Inr (obj_get (heap s a) k))"

text \<open>
  The payload the documentation of \<open>getFormData\<close> describes: one pair per name of
  \<open>fields\<close>, in that order, with the current text of the element registered under the name.
\<close>

definition payload :: "closure \<Rightarrow> state \<Rightarrow> (string \<times> string) list" where
  "payload c s =
     map (\<lambda>k. (k, case obj_get (heap s (fieldsRef c)) k of Elem a \<Rightarrow> elem_value s a | _ \<Rightarrow> []))
         (fields_arr c)"

text \<open>Concrete stores and closures, on which the theorems below are instantiated.\<close>

definition empty_store :: state where
  "empty_store = \<lparr>heap = (\<lambda>a. []), fresh = 0, elem_value = (\<lambda>a. [])\<rparr>"

definition deck_fields :: "string list" where
  "deck_fields = [''name'', ''desc'']"

definition deck_closure :: closure where
  "deck_closure = \<lparr>fields_arr = deck_fields, fieldsRef = 2, initialState = 2\<rparr>"

definition deck_store :: state where
  "deck_store = snd (useRefFields deck_fields empty_store)"

definition typed_store :: state where
  "typed_store =
     (setRef deck_closure ''name'' (Some 7) deck_store)
       \<lparr>elem_value := (\<lambda>a. if a = 7 then ''Fire'' else [])\<rparr>"

definition index_closure :: closure where
  "index_closure = \<lparr>fields_arr = [''b'', ''1''], fieldsRef = 2, initialState = 2\<rparr>"

definition pair_closure :: closure where
  "pair_closure = \<lparr>fields_arr = [''a'', ''b''], fieldsRef = 2, initialState = 2\<rparr>"

section \<open>Objects\<close>

lemma obj_get_put: "obj_get (obj_put obj key v) k = (if k = key then v else obj_get obj k)"
  by (induction obj key v rule: obj_put.induct) (auto simp: obj_get_def)

lemma keys_put:
  "map fst (obj_put obj key v) =
     (if key \<in> set (map fst obj) then map fst obj else map fst obj @ [key])"
  by (induction obj key v rule: obj_put.induct) auto

lemma obj_put_put: "obj_put (obj_put obj key v) key w = obj_put obj key w"
  by (induction obj key v rule: obj_put.induct) auto

lemma set_ownKeys: "set (ownKeys obj) = set (map fst obj)"
  by (auto simp: ownKeys_def Let_def)

lemma ownKeys_plain:
  "\<forall>k \<in> set (map fst obj). \<not> is_array_index k \<Longrightarrow> ownKeys obj = map fst obj"
proof -
  assume a: "\<forall>k \<in> set (map fst obj). \<not> is_array_index k"
  then have "filter is_array_index (map fst obj) = []"
    by (simp add: filter_empty_conv)
  moreover from a have "filter (\<lambda>k. \<not> is_array_index k) (map fst obj) = map fst obj"
    by (simp add: filter_id_conv)
  ultimately show ?thesis
    by (simp add: ownKeys_def Let_def)
qed

lemma keys_spread: "map fst (spread obj) = ownKeys obj"
  by (simp add: spread_def comp_def)

lemma obj_get_spread: "obj_get (spread obj) k = obj_get obj k"
proof -
  have "map_of (map (\<lambda>k. (k, obj_get obj k)) ks) k
          = (if k \<in> set ks then Some (obj_get obj k) else None)" for ks
    by (induction ks) auto
  then show ?thesis
    by (auto simp: spread_def obj_get_def set_ownKeys map_of_eq_None_iff[symmetric]
             simp del: map_of_eq_None_iff split: option.splits)
qed

lemma obj_get_literal:
  "obj_get (literal obj key v) k = (if k = key then v else obj_get obj k)"
  by (simp add: literal_def obj_get_put obj_get_spread)

lemma keys_literal_set: "set (map fst (literal obj key v)) = insert key (set (map fst obj))"
  by (auto simp: literal_def keys_put keys_spread set_ownKeys)

lemma keys_literal_plain:
  "\<forall>k \<in> set (map fst obj). \<not> is_array_index k \<Longrightarrow>
   map fst (literal obj key v) =
     (if key \<in> set (map fst obj) then map fst obj else map fst obj @ [key])"
  by (simp add: literal_def keys_put keys_spread ownKeys_plain set_ownKeys del: set_map)


lemma fold_literal_get:
  "obj_get (fold (\<lambda>key obj. literal obj key (val key)) ks init) k =
     (if k \<in> set ks then val k else obj_get init k)"
  by (induction ks arbitrary: init) (auto simp: obj_get_literal)

lemma fold_literal_keys_set:
  "set (map fst (fold (\<lambda>key obj. literal obj key (val key)) ks init)) =
     set (map fst init) \<union> set ks"
  by (induction ks arbitrary: init) (auto simp: keys_literal_set simp del: set_map)

lemma fold_literal_keys_new:
  "\<forall>k \<in> set (map fst init) \<union> set ks. \<not> is_array_index k \<Longrightarrow> distinct (map fst init @ ks) \<Longrightarrow>
   map fst (fold (\<lambda>key obj. literal obj key (val key)) ks init) = map fst init @ ks"
proof (induction ks arbitrary: init)
  case Nil
  then show ?case by simp
next
  case (Cons x xs)
  have k: "map fst (literal init x (val x)) = map fst init @ [x]"
    using Cons.prems by (simp add: keys_literal_plain del: set_map)
  have "map fst (fold (\<lambda>key obj. literal obj key (val key)) xs (literal init x (val x)))
          = map fst (literal init x (val x)) @ xs"
    using Cons.prems by (intro Cons.IH) (auto simp: k)
  then show ?case by (simp add: k)
qed

lemma fold_literal_keys_old:
  "\<forall>k \<in> set (map fst init). \<not> is_array_index k \<Longrightarrow> set ks \<subseteq> set (map fst init) \<Longrightarrow>
   map fst (fold (\<lambda>key obj. literal obj key (val key)) ks init) = map fst init"
proof (induction ks arbitrary: init)
  case Nil
  then show ?case by simp
next
  case (Cons x xs)
  have k: "map fst (literal init x (val x)) = map fst init"
    using Cons.prems by (simp add: keys_literal_plain del: set_map)
  have "map fst (fold (\<lambda>key obj. literal obj key (val key)) xs (literal init x (val x)))
          = map fst (literal init x (val x))"
    using Cons.prems by (intro Cons.IH) (auto simp: k)
  then show ?case by (simp add: k)
qed

section \<open>The store during a reduce\<close>

lemma frame_refl: "frame s s"
  by (simp add: frame_def)

lemma frame_trans: "frame s t \<Longrightarrow> frame t u \<Longrightarrow> frame s u"
  by (auto simp: frame_def)

lemma object_literal_ok:
  assumes "expr (snd (alloc (spread (heap s obj)) s)) = Inr v"
  shows "object_literal obj key expr s =
           (Inr (fresh s), s\<lparr>heap := (heap s)(fresh s := literal (heap s obj) key v),
                              fresh := Suc (fresh s)\<rparr>)"
  using assms by (simp add: object_literal_def alloc_def heap_put_def literal_def)

lemma frame_alloc: "frame s (snd (alloc obj s))"
  by (simp add: frame_def alloc_def)

lemma reduce_literal:
  assumes ex: "\<And>key t. frame s t \<Longrightarrow> expr key t = Inr (val key)"
  shows "frame s u \<Longrightarrow> acc < fresh u \<Longrightarrow>
         \<exists>a t. reduce (\<lambda>obj key. object_literal obj key (expr key)) ks acc u = (Inr a, t)
               \<and> frame u t \<and> a < fresh t
               \<and> heap t a = fold (\<lambda>key obj. literal obj key (val key)) ks (heap u acc)"
proof (induction ks arbitrary: acc u)
  case Nil
  then show ?case by (simp add: frame_refl)
next
  case (Cons x xs)
  let ?u1 = "u\<lparr>heap := (heap u)(fresh u := literal (heap u acc) x (val x)),
                fresh := Suc (fresh u)\<rparr>"
  have "frame s (snd (alloc (spread (heap u acc)) u))"
    using Cons.prems(1) frame_alloc frame_trans by blast
  then have step: "object_literal acc x (expr x) u = (Inr (fresh u), ?u1)"
    by (intro object_literal_ok ex)
  have f1: "frame u ?u1"
    by (simp add: frame_def)
  then have "frame s ?u1"
    using Cons.prems(1) frame_trans by blast
  moreover have "fresh u < fresh ?u1"
    by simp
  ultimately obtain a t where
    r: "reduce (\<lambda>obj key. object_literal obj key (expr key)) xs (fresh u) ?u1 = (Inr a, t)"
    and ft: "frame ?u1 t" and a: "a < fresh t"
    and h: "heap t a = fold (\<lambda>key obj. literal obj key (val key)) xs (heap ?u1 (fresh u))"
    using Cons.IH by blast
  have "frame u t"
    using f1 ft frame_trans by blast
  with r a h step show ?case
    by simp
qed


lemma read_value_opt_current:
  "(case read_value_opt d v of Inl e \<Rightarrow> Inl e | Inr w \<Rightarrow> Inr (of_opt w)) = Inr (current_value d v)"
  by (cases v) (simp_all add: read_value_opt_def of_opt_def current_value_def)

lemma getAllRef_result:
  assumes "fieldsRef c < fresh s" and "initialState c < fresh s"
  shows "\<exists>a t. getAllRef c s = (Inr a, t) \<and> frame s t \<and> a < fresh t
           \<and> heap t a =
               fold (\<lambda>key obj. literal obj key
                       (current_value (elem_value s) (obj_get (heap s (fieldsRef c)) key)))
                    (fields_arr c) (heap s (initialState c))"
  unfolding getAllRef_def
proof (rule reduce_literal [where s = s])
  fix key t
  assume "frame s t"
  with assms(1) have "elem_value t = elem_value s" "heap t (fieldsRef c) = heap s (fieldsRef c)"
    by (simp_all add: frame_def)
  then show "(case read_value_opt (elem_value t) (obj_get (heap t (fieldsRef c)) key) of
                Inl e \<Rightarrow> Inl e | Inr v \<Rightarrow> Inr (of_opt v))
             = Inr (current_value (elem_value s) (obj_get (heap s (fieldsRef c)) key))"
    by (simp add: read_value_opt_current)
qed (simp_all add: frame_refl assms)

lemma new_initialState_result:
  "\<exists>a t. new_initialState fs s = (Inr a, t) \<and> frame s t \<and> a < fresh t
         \<and> heap t a = fold (\<lambda>key obj. literal obj key Null) fs []"
proof -
  let ?s0 = "s\<lparr>heap := (heap s)(fresh s := []), fresh := Suc (fresh s)\<rparr>"
  have "\<exists>a t. reduce (\<lambda>obj key. object_literal obj key (\<lambda>s1. Inr Null)) fs (fresh s) ?s0 = (Inr a, t)
           \<and> frame ?s0 t \<and> a < fresh t
           \<and> heap t a = fold (\<lambda>key obj. literal obj key Null) fs (heap ?s0 (fresh s))"
    by (rule reduce_literal [where s = ?s0]) (simp_all add: frame_refl)
  moreover have "frame s ?s0"
    by (simp add: frame_def)
  ultimately show ?thesis
    by (auto simp: new_initialState_def alloc_def intro: frame_trans)
qed

lemma every_state:
  assumes "\<And>x s. snd (f x s) = s"
  shows "snd (every f xs s) = s"
proof (induction xs)
  case Nil
  then show ?case by simp
next
  case (Cons x xs)
  obtain r where "f x s = (r, s)"
    using assms [of x s] by (cases "f x s") simp
  with Cons show ?case
    by (cases r) simp_all
qed

lemma reduce_state:
  assumes "\<And>acc x s. snd (f acc x s) = s"
  shows "snd (reduce f xs acc s) = s"
proof (induction xs arbitrary: acc)
  case Nil
  then show ?case by simp
next
  case (Cons x xs)
  obtain r where "f acc x s = (r, s)"
    using assms [of acc x s] by (cases "f acc x s") simp
  with Cons show ?case
    by (cases r) simp_all
qed

lemma getRef_state: "snd (getRef c key s) = s"
  by (simp add: getRef_def split: sum.splits)

lemma getFormData_state: "snd (getFormData c s) = s"
proof -
  let ?chk = "\<lambda>key s1. case assertIsDefined (obj_get (heap s1 (fieldsRef c)) key) key of
                          Inl e \<Rightarrow> (Inl e, s1) | Inr u \<Rightarrow> (Inr Undefined, s1)"
  have "snd (every ?chk (fields_arr c) s) = s"
    by (rule every_state) (simp split: sum.splits)
  then obtain r where e: "every ?chk (fields_arr c) s = (r, s)"
    by (cases "every ?chk (fields_arr c) s") simp
  show ?thesis
    unfolding getFormData_def e
    by (cases r) (simp_all add: reduce_state split: sum.splits)
qed


section \<open>The invariant\<close>

lemma registry_ok_frame: "registry_ok c s \<Longrightarrow> frame s t \<Longrightarrow> registry_ok c t"
  by (simp add: registry_ok_def frame_def)

lemma initial_keys_set: "set (map fst (fold (\<lambda>key obj. literal obj key Null) fs [])) = set fs"
  by (simp add: fold_literal_keys_set del: set_map)

lemma initial_keys_plain:
  "distinct fs \<Longrightarrow> \<forall>k \<in> set fs. \<not> is_array_index k \<Longrightarrow>
   map fst (fold (\<lambda>key obj. literal obj key Null) fs []) = fs"
  using fold_literal_keys_new [of "[]" fs "\<lambda>key. Null"] by simp


lemma registry_ok_first:
  assumes "useRefFields fs s0 = (Inr c, s)"
  shows "registry_ok c s"
proof -
  obtain a t where n: "new_initialState fs s0 = (Inr a, t)" and a: "a < fresh t"
    and h: "heap t a = fold (\<lambda>key obj. literal obj key Null) fs []"
    using new_initialState_result by blast
  from assms n have c: "c = \<lparr>fields_arr = fs, fieldsRef = a, initialState = a\<rparr>" and s: "s = t"
    by (simp_all add: useRefFields_def)
  have "obj_get [] k = Undefined" for k
    by (simp add: obj_get_def)
  then have "\<not> is_Str (obj_get (heap t a) k)" for k
    by (simp add: h fold_literal_get)
  then show ?thesis
    unfolding registry_ok_def c s
    by (simp add: a h initial_keys_set initial_keys_plain del: set_map)
qed

lemma registry_ok_again:
  assumes "registry_ok c s" and "useRefFields_again c s = (Inr c', s')"
  shows "registry_ok c' s'"
proof -
  obtain a t where n: "new_initialState (fields_arr c) s = (Inr a, t)" and a: "a < fresh t"
    and f: "frame s t"
    and h: "heap t a = fold (\<lambda>key obj. literal obj key Null) (fields_arr c) []"
    using new_initialState_result by blast
  from assms(2) n
  have c: "c' = \<lparr>fields_arr = fields_arr c, fieldsRef = fieldsRef c, initialState = a\<rparr>"
    and s: "s' = t"
    by (simp_all add: useRefFields_again_def)
  from assms(1) f have "registry_ok c t"
    by (rule registry_ok_frame)
  then show ?thesis
    unfolding c s registry_ok_def
    by (simp add: a h initial_keys_set initial_keys_plain del: set_map)
qed

lemma registry_ok_setRef:
  assumes "registry_ok c s"
  shows "registry_ok c (setRef c key ref s)"
proof (cases "key \<in> set (fields_arr c)")
  case False
  with assms show ?thesis by (simp add: setRef_def)
next
  case True
  let ?v = "case ref of None \<Rightarrow> Null | Some a \<Rightarrow> Elem a"
  from True assms have k: "key \<in> set (map fst (heap s (fieldsRef c)))"
    by (simp add: registry_ok_def del: set_map)
  then have keys: "map fst (obj_put (heap s (fieldsRef c)) key ?v) = map fst (heap s (fieldsRef c))"
    by (simp add: keys_put del: set_map)
  have v: "\<not> is_Str ?v"
    by (simp split: option.splits)
  show ?thesis
    using assms True keys v
    unfolding registry_ok_def setRef_def heap_put_def
    by (cases "initialState c = fieldsRef c") (simp_all add: obj_get_put del: set_map)
qed

lemma reachable_registry_ok: "reachable c s \<Longrightarrow> registry_ok c s"
proof (induction rule: reachable.induct)
  case (first_render fs s0 c s)
  then show ?case by (rule registry_ok_first)
next
  case (next_render c s c' s')
  then show ?case by (blast intro: registry_ok_again)
next
  case (ref_callback c s key ref)
  from ref_callback.IH show ?case by (rule registry_ok_setRef)
next
  case (user_input c s d)
  then show ?case by (simp add: registry_ok_def)
next
  case (read_one c s key)
  then show ?case by (simp add: getRef_state)
next
  case (read_all c s)
  then obtain a t where "getAllRef c s = (Inr a, t)" and "frame s t"
    using getAllRef_result [of c s] by (auto simp: registry_ok_def)
  with read_all.IH show ?case
    by (auto intro: registry_ok_frame)
next
  case (read_form c s)
  then show ?case by (simp add: getFormData_state)
qed


section \<open>What the accessors compute\<close>

lemma getAllRef_keys:
  assumes "registry_ok c s"
  shows "\<exists>a t. getAllRef c s = (Inr a, t) \<and> frame s t
           \<and> set (ownKeys (heap t a)) = set (fields_arr c)
           \<and> (distinct (fields_arr c) \<and> (\<forall>k \<in> set (fields_arr c). \<not> is_array_index k) \<longrightarrow>
                 ownKeys (heap t a) = fields_arr c)
           \<and> (\<forall>k \<in> set (fields_arr c).
                 obj_get (heap t a) k
                   = current_value (elem_value s) (obj_get (heap s (fieldsRef c)) k))"
proof -
  let ?val = "\<lambda>key. current_value (elem_value s) (obj_get (heap s (fieldsRef c)) key)"
  let ?res = "fold (\<lambda>key obj. literal obj key (?val key)) (fields_arr c) (heap s (initialState c))"
  from assms obtain a t where r: "getAllRef c s = (Inr a, t)" and f: "frame s t"
    and h: "heap t a = ?res"
    using getAllRef_result [of c s] by (auto simp: registry_ok_def)
  from assms have init: "set (map fst (heap s (initialState c))) = set (fields_arr c)"
    by (simp add: registry_ok_def)
  have keys: "set (map fst ?res) = set (fields_arr c)"
    by (simp add: fold_literal_keys_set init del: set_map)
  then have k1: "set (ownKeys (heap t a)) = set (fields_arr c)"
    by (simp add: h set_ownKeys del: set_map)
  have k2: "ownKeys (heap t a) = fields_arr c"
    if d: "distinct (fields_arr c)" and p: "\<forall>k \<in> set (fields_arr c). \<not> is_array_index k"
  proof -
    from assms d p have i: "map fst (heap s (initialState c)) = fields_arr c"
      by (simp add: registry_ok_def)
    have "map fst ?res = map fst (heap s (initialState c))"
      by (rule fold_literal_keys_old) (simp_all add: i p)
    with i have m: "map fst ?res = fields_arr c"
      by simp
    have "ownKeys ?res = map fst ?res"
      by (rule ownKeys_plain) (simp add: m p)
    with m show ?thesis
      by (simp add: h)
  qed
  have k3: "\<forall>k \<in> set (fields_arr c). obj_get (heap t a) k = ?val k"
    by (simp add: h fold_literal_get)
  from r f k1 k2 k3 show ?thesis
    by blast
qed

text \<open>
  \<open>every\<close> with the callback of \<open>getFormData\<close> looks at the first field only: the
  callback returns \<open>undefined\<close> when the assertion passes.
\<close>

lemma every_assert:
  "every (\<lambda>key s1. case assertIsDefined (obj_get (heap s1 (fieldsRef c)) key) key of
                      Inl e \<Rightarrow> (Inl e, s1) | Inr u \<Rightarrow> (Inr Undefined, s1)) ks s =
     (case ks of
        [] \<Rightarrow> (Inr True, s)
      | k # ks' \<Rightarrow>
          if is_Elem (obj_get (heap s (fieldsRef c)) k) \<or> is_Str (obj_get (heap s (fieldsRef c)) k)
          then (Inr False, s) else (Inl (Error (unassigned_message k)), s))"
proof (cases ks)
  case Nil
  then show ?thesis by simp
next
  case (Cons k ks')
  then show ?thesis
    by (cases "obj_get (heap s (fieldsRef c)) k") (simp_all add: assertIsDefined_def)
qed

lemma reduce_append_ok:
  "\<forall>k \<in> set ks. is_Elem (obj_get (heap s (fieldsRef c)) k) \<Longrightarrow>
   reduce (\<lambda>form key s1.
             case read_value (elem_value s1) (obj_get (heap s1 (fieldsRef c)) key) of
               Inl e \<Rightarrow> (Inl e, s1)
             | Inr v \<Rightarrow> (Inr (form @ [(key, usv_string v)]), s1)) ks acc s =
     (Inr (acc @ map (\<lambda>k. (k, case obj_get (heap s (fieldsRef c)) k of
                                 Elem a \<Rightarrow> elem_value s a | _ \<Rightarrow> [])) ks), s)"
proof (induction ks arbitrary: acc)
  case Nil
  then show ?case by simp
next
  case (Cons k ks)
  from Cons.prems obtain a where "obj_get (heap s (fieldsRef c)) k = Elem a"
    by (cases "obj_get (heap s (fieldsRef c)) k") simp_all
  with Cons show ?case
    by (simp add: usv_string_def)
qed

lemma reduce_append_fail:
  "\<exists>k \<in> set ks. \<not> is_Elem (obj_get (heap s (fieldsRef c)) k) \<Longrightarrow>
   \<forall>k \<in> set ks. \<not> is_Str (obj_get (heap s (fieldsRef c)) k) \<Longrightarrow>
   fst (reduce (\<lambda>form key s1.
                  case read_value (elem_value s1) (obj_get (heap s1 (fieldsRef c)) key) of
                    Inl e \<Rightarrow> (Inl e, s1)
                  | Inr v \<Rightarrow> (Inr (form @ [(key, usv_string v)]), s1)) ks acc s) = Inl TypeError"
proof (induction ks arbitrary: acc)
  case Nil
  then show ?case by simp
next
  case (Cons k ks)
  show ?case
  proof (cases "obj_get (heap s (fieldsRef c)) k")
    case (Elem a)
    with Cons.prems have "\<exists>k \<in> set ks. \<not> is_Elem (obj_get (heap s (fieldsRef c)) k)"
      by auto
    with Cons Elem show ?thesis
      by simp
  next
    case (Str x)
    with Cons.prems show ?thesis by simp
  qed simp_all
qed

text \<open>
  \<open>getFormData\<close> in full. With an element under every field it returns the payload. With
  none under the first field it raises the error of \<open>assertIsDefined\<close> for that field. With
  one under the first field and none under a later one it raises a \<open>TypeError\<close>.
\<close>

lemma getFormData_all_assigned:
  assumes "\<forall>k \<in> set (fields_arr c). is_Elem (obj_get (heap s (fieldsRef c)) k)"
  shows "getFormData c s = (Inr (payload c s), s)"
proof (cases "fields_arr c")
  case Nil
  then show ?thesis
    by (simp add: getFormData_def payload_def)
next
  case (Cons k ks)
  with assms have "is_Elem (obj_get (heap s (fieldsRef c)) k)"
    by simp
  then show ?thesis
    unfolding getFormData_def every_assert payload_def
    using reduce_append_ok [OF assms, of "[]"] by (simp add: Cons)
qed

lemma getFormData_first_unassigned:
  assumes "reachable c s" and "fields_arr c = k # ks"
    and "\<not> is_Elem (obj_get (heap s (fieldsRef c)) k)"
  shows "fst (getFormData c s) = Inl (Error (unassigned_message k))"
proof -
  from assms(1) have "\<not> is_Str (obj_get (heap s (fieldsRef c)) k)"
    using reachable_registry_ok by (simp add: registry_ok_def)
  with assms(2,3) show ?thesis
    unfolding getFormData_def every_assert by simp
qed

lemma getFormData_later_unassigned:
  assumes "reachable c s" and "fields_arr c = k # ks"
    and "is_Elem (obj_get (heap s (fieldsRef c)) k)"
    and "\<exists>k' \<in> set ks. \<not> is_Elem (obj_get (heap s (fieldsRef c)) k')"
  shows "fst (getFormData c s) = Inl TypeError"
proof -
  from assms(1) have n: "\<forall>k \<in> set (fields_arr c). \<not> is_Str (obj_get (heap s (fieldsRef c)) k)"
    using reachable_registry_ok by (simp add: registry_ok_def)
  from assms(2,4) have "\<exists>k \<in> set (fields_arr c). \<not> is_Elem (obj_get (heap s (fieldsRef c)) k)"
    by auto
  then have "fst (reduce (\<lambda>form key s1.
                  case read_value (elem_value s1) (obj_get (heap s1 (fieldsRef c)) key) of
                    Inl e \<Rightarrow> (Inl e, s1)
                  | Inr v \<Rightarrow> (Inr (form @ [(key, usv_string v)]), s1)) (fields_arr c) [] s)
             = Inl TypeError"
    using n by (rule reduce_append_fail)
  with assms(2,3) show ?thesis
    unfolding getFormData_def every_assert by simp
qed

section \<open>Concrete runs\<close>

lemmas run_defs =
  useRefFields_def new_initialState_def object_literal_def alloc_def heap_put_def spread_def
  ownKeys_def obj_get_def is_array_index_def is_digit_def dec_value_def digit_value_def
  empty_store_def

lemma deck_first: "useRefFields deck_fields empty_store = (Inr deck_closure, deck_store)"
  by (simp add: deck_store_def deck_closure_def deck_fields_def run_defs)

lemma deck_reachable: "reachable deck_closure deck_store"
  using deck_first by (rule reachable.first_render)

lemma deck_heap: "heap deck_store 2 = [(''name'', Null), (''desc'', Null)]"
  by (simp add: deck_store_def deck_fields_def run_defs)

lemma deck_name: "''name'' \<in> set (fields_arr deck_closure)"
  by (simp add: deck_closure_def deck_fields_def)

lemma deck_fields_plain:
  "distinct deck_fields \<and> (\<forall>k \<in> set deck_fields. \<not> is_array_index k)"
  by (simp add: deck_fields_def is_array_index_def is_digit_def)

lemma typed_reachable: "reachable deck_closure typed_store"
  unfolding typed_store_def
  by (intro reachable.user_input reachable.ref_callback deck_reachable)

lemma typed_heap: "heap typed_store 2 = [(''name'', Elem 7), (''desc'', Null)]"
  by (simp add: typed_store_def setRef_def heap_put_def deck_heap deck_closure_def deck_fields_def)

lemma typed_elem_value: "elem_value typed_store 7 = ''Fire''"
  by (simp add: typed_store_def)

lemma unassigned_message_inj: "inj unassigned_message"
  by (simp add: inj_def unassigned_message_def)

section \<open>The claims\<close>

text \<open>
  C1. The claim: \<open>getFormData\<close> raises the error of \<open>assertIsDefined\<close>, naming the
  first field without an element, exactly when some field has none. The code:
  with \<open>fields = ["a", "b"]\<close>, an element registered under \<open>a\<close> and none under
  \<open>b\<close>, the callback of \<open>every\<close> returns \<open>undefined\<close> for \<open>a\<close>, so \<open>every\<close>
  stops there and \<open>b\<close> is never checked; the \<open>reduce\<close> then reads \<open>.value\<close> of
  \<open>null\<close> and a \<open>TypeError\<close> is raised, which does not name the field.
\<close>

theorem getFormData_second_field_unassigned:
  "fst (useRefFields [''a'', ''b''] empty_store) = Inr pair_closure
   \<and> fst (getFormData pair_closure
            (setRef pair_closure ''a'' (Some 0) (snd (useRefFields [''a'', ''b''] empty_store))))
       = Inl TypeError"
  by (simp add: pair_closure_def getFormData_def setRef_def assertIsDefined_def run_defs)

text \<open>
  C2. In a reachable state and for a name \<open>n\<close> of \<open>fields\<close>: after \<open>setRef(n)\<close> was
  called with the element \<open>h\<close>, \<open>getRef(n)\<close> returns the text \<open>h\<close> has when \<open>getRef\<close>
  is called, whatever the elements' texts \<open>d\<close> have become since the registration.
\<close>

theorem getRef_reads_through:
  "reachable c s \<Longrightarrow> n \<in> set (fields_arr c) \<Longrightarrow>
   fst (getRef c n ((setRef c n (Some h) s)\<lparr>elem_value := d\<rparr>)) = Inr (Some (d h))"
  by (simp add: getRef_def setRef_def heap_put_def obj_get_put assertIsDefined_def)

theorem getRef_reads_through_witness:
  "reachable deck_closure deck_store \<and> ''name'' \<in> set (fields_arr deck_closure)
   \<and> fst (getRef deck_closure ''name''
            ((setRef deck_closure ''name'' (Some 7) deck_store)
               \<lparr>elem_value := (\<lambda>a. if a = 7 then ''Fire'' else [])\<rparr>))
       = Inr (Some ''Fire'')"
  using getRef_reads_through [OF deck_reachable deck_name, where h = 7
          and d = "\<lambda>a. if a = 7 then ''Fire'' else []"]
    deck_reachable deck_name
  by simp

text \<open>
  C3. In every reachable state and for a name \<open>n\<close> of \<open>fields\<close> under which no element
  is stored, \<open>getRef(n)\<close> raises the error of \<open>assertIsDefined\<close>; it does not return
  the empty string; and the message determines \<open>n\<close>, since two names never share a
  message.
\<close>

theorem getRef_unassigned:
  assumes "reachable c s" and "n \<in> set (fields_arr c)"
    and "\<not> is_Elem (obj_get (heap s (fieldsRef c)) n)"
  shows "fst (getRef c n s) = Inl (Error (unassigned_message n))
         \<and> fst (getRef c n s) \<noteq> Inr (Some []) \<and> inj unassigned_message"
proof -
  from assms(1) have "\<not> is_Str (obj_get (heap s (fieldsRef c)) n)"
    using reachable_registry_ok by (simp add: registry_ok_def)
  with assms(3) have "obj_get (heap s (fieldsRef c)) n = Undefined
                      \<or> obj_get (heap s (fieldsRef c)) n = Null"
    by (cases "obj_get (heap s (fieldsRef c)) n") simp_all
  then show ?thesis
    by (auto simp: getRef_def assertIsDefined_def unassigned_message_inj)
qed

theorem getRef_unassigned_witness:
  "reachable deck_closure deck_store \<and> ''desc'' \<in> set (fields_arr deck_closure)
   \<and> \<not> is_Elem (obj_get (heap deck_store (fieldsRef deck_closure)) ''desc'')
   \<and> fst (getRef deck_closure ''desc'' deck_store) = Inl (Error (unassigned_message ''desc''))"
  using getRef_unassigned [where c = deck_closure and s = deck_store and n = "''desc''"]
    deck_reachable
  by (simp add: deck_closure_def deck_fields_def deck_heap obj_get_def)

text \<open>
  C4. For every list \<open>L\<close> of field names (with or without duplicates), the first call of
  the hook succeeds, and \<open>getAllRef\<close> called right after it returns an object whose keys
  are exactly the names of \<open>L\<close>, each with the value \<open>undefined\<close>.
\<close>

theorem getAllRef_after_construction:
  "\<exists>c s. useRefFields L s0 = (Inr c, s)
     \<and> (\<exists>ks. result_keys (getAllRef c s) = Inr ks \<and> set ks = set L)
     \<and> (\<forall>k \<in> set L. result_get (getAllRef c s) k = Inr Undefined)"
proof -
  obtain a t where n: "new_initialState L s0 = (Inr a, t)"
    and h: "heap t a = fold (\<lambda>key obj. literal obj key Null) L []"
    using new_initialState_result by blast
  let ?c = "\<lparr>fields_arr = L, fieldsRef = a, initialState = a\<rparr>"
  have u: "useRefFields L s0 = (Inr ?c, t)"
    by (simp add: useRefFields_def n)
  then have "registry_ok ?c t"
    by (rule registry_ok_first)
  then obtain b t' where g: "getAllRef ?c t = (Inr b, t')"
    and ks: "set (ownKeys (heap t' b)) = set L"
    and vs: "\<forall>k \<in> set L. obj_get (heap t' b) k
               = current_value (elem_value t) (obj_get (heap t a) k)"
    using getAllRef_keys [of ?c t] by auto
  have "obj_get (heap t a) k = Null" if "k \<in> set L" for k
    using that by (simp add: h fold_literal_get)
  with vs have "\<forall>k \<in> set L. obj_get (heap t' b) k = Undefined"
    by (simp add: current_value_def)
  with u g ks show ?thesis
    by (simp add: result_keys_def result_get_def)
qed

theorem getAllRef_after_construction_witness:
  "useRefFields deck_fields empty_store = (Inr deck_closure, deck_store)
   \<and> (\<exists>ks. result_keys (getAllRef deck_closure deck_store) = Inr ks
           \<and> set ks = {''name'', ''desc''})
   \<and> result_get (getAllRef deck_closure deck_store) ''name'' = Inr Undefined
   \<and> result_get (getAllRef deck_closure deck_store) ''desc'' = Inr Undefined"
proof -
  from getAllRef_after_construction [of deck_fields empty_store]
  have "(\<exists>ks. result_keys (getAllRef deck_closure deck_store) = Inr ks \<and> set ks = set deck_fields)
        \<and> (\<forall>k \<in> set deck_fields. result_get (getAllRef deck_closure deck_store) k = Inr Undefined)"
    by (simp add: deck_first)
  then have "(\<exists>ks. result_keys (getAllRef deck_closure deck_store) = Inr ks
                \<and> set ks = {''name'', ''desc''})
        \<and> result_get (getAllRef deck_closure deck_store) ''name'' = Inr Undefined
        \<and> result_get (getAllRef deck_closure deck_store) ''desc'' = Inr Undefined"
    by (simp add: deck_fields_def)
  with deck_first show ?thesis
    by simp
qed

text \<open>
  C5, as stated, fails on the order of the keys: with \<open>fields = ["b", "1"]\<close> the object
  \<open>getAllRef\<close> returns lists its keys as \<open>["1", "b"]\<close>, since an object enumerates an
  array index before every other key.
\<close>

theorem getAllRef_index_keys_first:
  "fst (useRefFields [''b'', ''1''] empty_store) = Inr index_closure
   \<and> result_keys (getAllRef index_closure (snd (useRefFields [''b'', ''1''] empty_store)))
       = Inr [''1'', ''b'']"
  by (simp add: index_closure_def getAllRef_def read_value_opt_def of_opt_def result_keys_def
        run_defs)

text \<open>
  C5, amended. In every reachable state \<open>getAllRef\<close> returns an object and raises nothing.
  The keys of the object are exactly the names of \<open>fields\<close>; they are listed in the order
  of \<open>fields\<close> when the names are distinct and none of them is an array index. Under each
  name is the current text of the element registered there, and \<open>undefined\<close> when none is.
\<close>

theorem getAllRef_total:
  assumes "reachable c s"
  shows "(\<exists>ks. result_keys (getAllRef c s) = Inr ks \<and> set ks = set (fields_arr c)
            \<and> (distinct (fields_arr c) \<and> (\<forall>k \<in> set (fields_arr c). \<not> is_array_index k) \<longrightarrow>
                  ks = fields_arr c))
         \<and> (\<forall>k \<in> set (fields_arr c).
               result_get (getAllRef c s) k
                 = Inr (current_value (elem_value s) (obj_get (heap s (fieldsRef c)) k)))"
proof -
  from assms have "registry_ok c s"
    by (rule reachable_registry_ok)
  then show ?thesis
    using getAllRef_keys [of c s] by (auto simp: result_keys_def result_get_def)
qed

theorem getAllRef_total_witness:
  "reachable deck_closure typed_store
   \<and> result_keys (getAllRef deck_closure typed_store) = Inr [''name'', ''desc'']
   \<and> result_get (getAllRef deck_closure typed_store) ''name'' = Inr (Str ''Fire'')
   \<and> result_get (getAllRef deck_closure typed_store) ''desc'' = Inr Undefined"
proof -
  have c: "fields_arr deck_closure = deck_fields" "fieldsRef deck_closure = 2"
    by (simp_all add: deck_closure_def)
  from getAllRef_total [OF typed_reachable] deck_fields_plain
  have "result_keys (getAllRef deck_closure typed_store) = Inr deck_fields
        \<and> (\<forall>k \<in> set deck_fields.
              result_get (getAllRef deck_closure typed_store) k
                = Inr (current_value (elem_value typed_store) (obj_get (heap typed_store 2) k)))"
    by (auto simp: c)
  then show ?thesis
    using typed_reachable
    by (simp add: deck_fields_def typed_heap typed_elem_value obj_get_def current_value_def)
qed

text \<open>
  C6. In every reachable state, the ref callback of a key that is not in \<open>fields\<close> leaves
  the whole store as it is, whatever it is called with; \<open>getAllRef\<close> called afterwards
  returns an object, and the key is not among its keys. \<open>setRef\<close> has no way to raise: it
  tests \<open>fields.includes(key)\<close> and assigns at most one property.
\<close>

theorem setRef_unknown_name:
  assumes "reachable c s" and "key \<notin> set (fields_arr c)"
  shows "setRef c key ref s = s
         \<and> (\<exists>ks. result_keys (getAllRef c (setRef c key ref s)) = Inr ks \<and> key \<notin> set ks)"
proof -
  from assms(2) have same: "setRef c key ref s = s"
    by (simp add: setRef_def)
  from assms(1) obtain ks where "result_keys (getAllRef c s) = Inr ks"
    and "set ks = set (fields_arr c)"
    using getAllRef_keys [OF reachable_registry_ok, of c s] by (auto simp: result_keys_def)
  with assms(2) same show ?thesis
    by simp
qed

theorem setRef_unknown_name_witness:
  "reachable deck_closure typed_store \<and> ''age'' \<notin> set (fields_arr deck_closure)
   \<and> setRef deck_closure ''age'' (Some 9) typed_store = typed_store
   \<and> (\<exists>ks. result_keys (getAllRef deck_closure (setRef deck_closure ''age'' (Some 9) typed_store))
               = Inr ks \<and> ''age'' \<notin> set ks)"
proof -
  have k: "''age'' \<notin> set (fields_arr deck_closure)"
    by (simp add: deck_closure_def deck_fields_def)
  from setRef_unknown_name [OF typed_reachable k, of "Some 9"] typed_reachable k
  show ?thesis
    by blast
qed

text \<open>
  C7. In every reachable state, that is after the first render and any sequence of renders,
  ref callbacks (for any key, with an element or with \<open>null\<close>), changes of the elements'
  texts and calls of \<open>getRef\<close>, \<open>getAllRef\<close> and \<open>getFormData\<close>, the keys of
  \<open>fieldsRef.current\<close> are exactly the names of \<open>fields\<close>.
\<close>

theorem handles_keys_invariant:
  "reachable c s \<Longrightarrow> set (ownKeys (heap s (fieldsRef c))) = set (fields_arr c)"
proof -
  assume "reachable c s"
  then have "registry_ok c s"
    by (rule reachable_registry_ok)
  then show ?thesis
    by (simp add: registry_ok_def set_ownKeys del: set_map)
qed

theorem handles_keys_invariant_witness:
  "reachable deck_closure (snd (getFormData deck_closure (setRef deck_closure ''desc'' None typed_store)))
   \<and> set (ownKeys (heap (snd (getFormData deck_closure
                                  (setRef deck_closure ''desc'' None typed_store)))
                         (fieldsRef deck_closure)))
       = {''name'', ''desc''}"
proof -
  have r: "reachable deck_closure
             (snd (getFormData deck_closure (setRef deck_closure ''desc'' None typed_store)))"
    by (intro reachable.read_form reachable.ref_callback typed_reachable)
  from handles_keys_invariant [OF r] r show ?thesis
    by (simp add: deck_closure_def deck_fields_def)
qed

text \<open>
  C8. In a reachable state and for a name \<open>n\<close> of \<open>fields\<close>: the ref callback of \<open>n\<close>
  called with the element \<open>h\<close> stores \<open>h\<close> under \<open>n\<close>, so that \<open>getRef(n)\<close> returns the
  text of \<open>h\<close>; the callback called with \<open>null\<close> afterwards clears the slot, which then
  holds \<open>null\<close>, so that \<open>getRef(n)\<close> raises the error of \<open>assertIsDefined\<close> for \<open>n\<close>.
\<close>

theorem getRef_after_unmount:
  "reachable c s \<Longrightarrow> n \<in> set (fields_arr c) \<Longrightarrow>
   obj_get (heap (setRef c n (Some h) s) (fieldsRef c)) n = Elem h
   \<and> fst (getRef c n (setRef c n (Some h) s)) = Inr (Some (elem_value s h))
   \<and> obj_get (heap (setRef c n None (setRef c n (Some h) s)) (fieldsRef c)) n = Null
   \<and> fst (getRef c n (setRef c n None (setRef c n (Some h) s)))
       = Inl (Error (unassigned_message n))"
  by (simp add: getRef_def setRef_def heap_put_def obj_get_put assertIsDefined_def)

theorem getRef_after_unmount_witness:
  "reachable deck_closure typed_store \<and> ''desc'' \<in> set (fields_arr deck_closure)
   \<and> obj_get (heap typed_store (fieldsRef deck_closure)) ''desc'' = Null
   \<and> obj_get (heap (setRef deck_closure ''desc'' (Some 7) typed_store) (fieldsRef deck_closure))
         ''desc'' = Elem 7
   \<and> fst (getRef deck_closure ''desc'' (setRef deck_closure ''desc'' (Some 7) typed_store))
       = Inr (Some ''Fire'')
   \<and> obj_get (heap (setRef deck_closure ''desc'' None
                       (setRef deck_closure ''desc'' (Some 7) typed_store))
                 (fieldsRef deck_closure)) ''desc'' = Null
   \<and> fst (getRef deck_closure ''desc''
            (setRef deck_closure ''desc'' None
              (setRef deck_closure ''desc'' (Some 7) typed_store)))
       = Inl (Error (unassigned_message ''desc''))"
proof -
  have k: "''desc'' \<in> set (fields_arr deck_closure)"
    by (simp add: deck_closure_def deck_fields_def)
  have n: "obj_get (heap typed_store (fieldsRef deck_closure)) ''desc'' = Null"
    by (simp add: deck_closure_def typed_heap obj_get_def)
  from getRef_after_unmount [OF typed_reachable k, where h = 7] typed_reachable k n
  show ?thesis
    unfolding typed_elem_value by blast
qed

text \<open>
  C9. In a reachable state and for a name \<open>n\<close> of \<open>fields\<close>: after the ref callback of
  \<open>n\<close> was called with the element \<open>h1\<close> and then with \<open>h2\<close>, \<open>getRef(n)\<close> returns the
  text of \<open>h2\<close>, and the store is the one that the call with \<open>h2\<close> alone would have left:
  no accessor can tell that \<open>h1\<close> was ever registered under \<open>n\<close>.
\<close>

theorem setRef_last_wins:
  "reachable c s \<Longrightarrow> n \<in> set (fields_arr c) \<Longrightarrow>
   fst (getRef c n (setRef c n (Some h2) (setRef c n (Some h1) s))) = Inr (Some (elem_value s h2))
   \<and> setRef c n (Some h2) (setRef c n (Some h1) s) = setRef c n (Some h2) s"
  by (simp add: getRef_def setRef_def heap_put_def obj_get_put obj_put_put assertIsDefined_def)

theorem setRef_last_wins_witness:
  "reachable deck_closure typed_store \<and> ''name'' \<in> set (fields_arr deck_closure)
   \<and> fst (getRef deck_closure ''name''
            (setRef deck_closure ''name'' (Some 7) (setRef deck_closure ''name'' (Some 3) typed_store)))
       = Inr (Some ''Fire'')
   \<and> setRef deck_closure ''name'' (Some 7) (setRef deck_closure ''name'' (Some 3) typed_store)
       = setRef deck_closure ''name'' (Some 7) typed_store"
  using setRef_last_wins [OF typed_reachable deck_name, where ?h1.0 = 3 and ?h2.0 = 7]
    typed_reachable deck_name
  unfolding typed_elem_value by blast

text \<open>
  C10. In every reachable state, \<open>getRef\<close> and \<open>getFormData\<close> leave the whole store as it
  is, whether they return or raise. \<open>getAllRef\<close> only adds objects to the store: every
  object that existed, \<open>fieldsRef.current\<close> among them, and the text of every element are
  as before the call.
\<close>

theorem accessors_read_only:
  assumes "reachable c s"
  shows "snd (getRef c n s) = s \<and> snd (getFormData c s) = s
         \<and> frame s (snd (getAllRef c s))
         \<and> heap (snd (getAllRef c s)) (fieldsRef c) = heap s (fieldsRef c)"
proof -
  from assms have ok: "registry_ok c s"
    by (rule reachable_registry_ok)
  then obtain a t where "getAllRef c s = (Inr a, t)" and "frame s t"
    using getAllRef_result [of c s] by (auto simp: registry_ok_def)
  then have f: "frame s (snd (getAllRef c s))"
    by simp
  with ok have "heap (snd (getAllRef c s)) (fieldsRef c) = heap s (fieldsRef c)"
    by (simp add: frame_def registry_ok_def)
  with f show ?thesis
    by (simp add: getRef_state getFormData_state)
qed

theorem accessors_read_only_witness:
  "reachable deck_closure typed_store
   \<and> snd (getRef deck_closure ''desc'' typed_store) = typed_store
   \<and> snd (getFormData deck_closure typed_store) = typed_store
   \<and> heap (snd (getAllRef deck_closure typed_store)) 2
       = [(''name'', Elem 7), (''desc'', Null)]
   \<and> elem_value (snd (getAllRef deck_closure typed_store)) 7 = ''Fire''"
proof -
  from accessors_read_only [OF typed_reachable, of "''desc''"]
  have "snd (getRef deck_closure ''desc'' typed_store) = typed_store"
    and "snd (getFormData deck_closure typed_store) = typed_store"
    and "elem_value (snd (getAllRef deck_closure typed_store)) = elem_value typed_store"
    and "heap (snd (getAllRef deck_closure typed_store)) 2 = heap typed_store 2"
    by (simp_all add: frame_def deck_closure_def)
  with typed_reachable show ?thesis
    by (simp add: typed_heap typed_elem_value)
qed

end
